theory Spec2Isabelle
  imports Main "HOL-Library.AList"
begin

section \<open>Values, errors and strings\<close>

text \<open>
  The item engine of \<^verbatim>\<open>cobbler/items/item.py\<close> works on dynamically typed Python
  values. The values that reach the functions verified here are \<^verbatim>\<open>None\<close>, booleans,
  integers, strings, lists and dictionaries with string keys. A dictionary is kept as an
  association list in insertion order; a key is looked up with \<^const>\<open>map_of\<close>.
\<close>

datatype pyval =
    VNone
  | VBool bool
  | VInt int
  | VStr string
  | VList "pyval list"
  | VDict "(string \<times> pyval) list"

text \<open>The six concrete item classes; \<^verbatim>\<open>TYPE_NAME\<close> and \<^verbatim>\<open>COLLECTION_TYPE\<close> of a class.\<close>

datatype family = Repo | Distro | Menu | Profile | Image | System

text \<open>
  Exceptions are values. \<^verbatim>\<open>CX\<close> carries its message; the \<^verbatim>\<open>AttributeError\<close> that
  \<^verbatim>\<open>_resolve\<close> raises carries the type of the item, its name and the property.
\<close>

datatype error =
    TypeError
  | AttributeError
  | KeyError
  | ValueError
  | CX string
  | InheritError family string string

definition VALUE_INHERITED :: string where
  "VALUE_INHERITED = ''<<inherit>>''"

text \<open>\<^verbatim>\<open>str.startswith\<close>, and the substring test of \<^verbatim>\<open>in\<close> on two strings.\<close>

fun startswith :: "string \<Rightarrow> string \<Rightarrow> bool" where
  "startswith s [] = True"
| "startswith [] (p # ps) = False"
| "startswith (c # cs) (p # ps) = (c = p \<and> startswith cs ps)"

fun str_contains :: "string \<Rightarrow> string \<Rightarrow> bool" where
  "str_contains [] k = (k = [])"
| "str_contains (c # cs) k = (startswith (c # cs) k \<or> str_contains cs k)"

text \<open>
  A string is the list of its code points, and a character of the model is a code point
  below 256; text with other code points is outside the model. \<^verbatim>\<open>str.lower\<close> maps
  the letters A to Z to a to z and the upper-case letters of the Latin-1 range (U+00C0 to
  U+00DE without the multiplication sign U+00D7) to the letters 32 places further on;
  every other code point below 256 is kept.
\<close>

definition upper_letters :: string where
  "upper_letters = ''ABCDEFGHIJKLMNOPQRSTUVWXYZ'' @
       [CHR 0xC0, CHR 0xC1, CHR 0xC2, CHR 0xC3, CHR 0xC4, CHR 0xC5, CHR 0xC6, CHR 0xC7,
        CHR 0xC8, CHR 0xC9, CHR 0xCA, CHR 0xCB, CHR 0xCC, CHR 0xCD, CHR 0xCE, CHR 0xCF,
        CHR 0xD0, CHR 0xD1, CHR 0xD2, CHR 0xD3, CHR 0xD4, CHR 0xD5, CHR 0xD6, CHR 0xD8,
        CHR 0xD9, CHR 0xDA, CHR 0xDB, CHR 0xDC, CHR 0xDD, CHR 0xDE]"

definition lower_letters :: string where
  "lower_letters = ''abcdefghijklmnopqrstuvwxyz'' @
       [CHR 0xE0, CHR 0xE1, CHR 0xE2, CHR 0xE3, CHR 0xE4, CHR 0xE5, CHR 0xE6, CHR 0xE7,
        CHR 0xE8, CHR 0xE9, CHR 0xEA, CHR 0xEB, CHR 0xEC, CHR 0xED, CHR 0xEE, CHR 0xEF,
        CHR 0xF0, CHR 0xF1, CHR 0xF2, CHR 0xF3, CHR 0xF4, CHR 0xF5, CHR 0xF6, CHR 0xF8,
        CHR 0xF9, CHR 0xFA, CHR 0xFB, CHR 0xFC, CHR 0xFD, CHR 0xFE]"

definition char_lower :: "char \<Rightarrow> char" where
  "char_lower c = (case map_of (zip upper_letters lower_letters) c of Some l \<Rightarrow> l | None \<Rightarrow> c)"

definition lower :: "string \<Rightarrow> string" where
  "lower s = map char_lower s"

section \<open>The standard library's fnmatch\<close>

text \<open>
  \<^verbatim>\<open>fnmatch.fnmatch(name, pat)\<close> on a POSIX system (where \<^verbatim>\<open>os.path.normcase\<close> is the
  identity) translates the pattern and matches the whole name. \<^verbatim>\<open>*\<close> matches any run of
  characters, \<^verbatim>\<open>?\<close> one character, \<^verbatim>\<open>[seq]\<close> one character of the class and
  \<^verbatim>\<open>[!seq]\<close> one character outside it. A \<^verbatim>\<open>[\<close> with no closing bracket is an
  ordinary character. The closing bracket is searched as the library does: a leading
  \<^verbatim>\<open>!\<close> and then a leading \<^verbatim>\<open>]\<close> are skipped first.
\<close>

datatype glob_tok = TStar | TAny | TClass bool string | TLit char

fun index_of :: "char \<Rightarrow> string \<Rightarrow> nat option" where
  "index_of c [] = None"
| "index_of c (x # xs) =
     (if x = c then Some 0 else (case index_of c xs of None \<Rightarrow> None | Some n \<Rightarrow> Some (Suc n)))"

definition find_close :: "string \<Rightarrow> nat option" where
  "find_close cs =
     (let o1 = (if startswith cs ''!'' then 1 else 0);
          o2 = (if startswith (drop o1 cs) '']'' then Suc o1 else o1)
      in (case index_of (CHR '']'') (drop o2 cs) of
            None \<Rightarrow> None
          | Some n \<Rightarrow> Some (o2 + n)))"

function translate :: "string \<Rightarrow> glob_tok list" where
  "translate [] = []"
| "translate (c # cs) =
     (if c = CHR ''*'' then TStar # translate cs
      else if c = CHR ''?'' then TAny # translate cs
      else if c = CHR ''['' then
        (case find_close cs of
           None \<Rightarrow> TLit c # translate cs
         | Some j \<Rightarrow>
             (let stuff = take j cs
              in (if startswith stuff ''!'' then TClass True (tl stuff) else TClass False stuff)
                 # translate (drop (Suc j) cs)))
      else TLit c # translate cs)"
  by pat_completeness auto
termination
  by (relation "measure length") auto

text \<open>
  Inside a class a hyphen between two characters makes a range; a range whose ends are in
  the wrong order is empty. Every other character stands for itself.
\<close>

fun in_class :: "string \<Rightarrow> char \<Rightarrow> bool" where
  "in_class (x # h # y # rest) c =
     (if h = CHR ''-'' then (of_char x \<le> (of_char c :: nat) \<and> (of_char c :: nat) \<le> of_char y) \<or> in_class rest c
      else c = x \<or> in_class (h # y # rest) c)"
| "in_class (x # rest) c = (c = x \<or> in_class rest c)"
| "in_class [] c = False"

fun tok_match :: "glob_tok list \<Rightarrow> string \<Rightarrow> bool" where
  "tok_match [] s = (s = [])"
| "tok_match (TStar # ts) [] = tok_match ts []"
| "tok_match (TStar # ts) (c # s) = (tok_match ts (c # s) \<or> tok_match (TStar # ts) s)"
| "tok_match (TAny # ts) [] = False"
| "tok_match (TAny # ts) (c # s) = tok_match ts s"
| "tok_match (TClass neg body # ts) [] = False"
| "tok_match (TClass neg body # ts) (c # s) = ((in_class body c \<noteq> neg) \<and> tok_match ts s)"
| "tok_match (TLit l # ts) [] = False"
| "tok_match (TLit l # ts) (c # s) = (c = l \<and> tok_match ts s)"

definition fnmatch :: "string \<Rightarrow> string \<Rightarrow> bool" where
  "fnmatch name pat = tok_match (translate pat) name"

section \<open>The match engine\<close>


definition truthy_tokens :: "string list" where
  "truthy_tokens = [''true'', ''1'', ''y'', ''yes'']"

fun all_in :: "pyval list \<Rightarrow> pyval list \<Rightarrow> bool" where
  "all_in [] from_obj = True"
| "all_in (list_element # rest) from_obj =
     (if list_element \<notin> set from_obj then False else all_in rest from_obj)"

fun dict_included :: "(string \<times> pyval) list \<Rightarrow> (string \<times> pyval) list \<Rightarrow> bool" where
  "dict_included [] from_obj = True"
| "dict_included ((dict_key, dict_value) # rest) from_obj =
     (case map_of from_obj dict_key of
        None \<Rightarrow> False
      | Some v \<Rightarrow> (if \<not> (dict_value = v) then False else dict_included rest from_obj))"

definition find_compare ::
  "(string \<Rightarrow> error + pyval) \<Rightarrow> (string \<Rightarrow> error + pyval) \<Rightarrow> pyval \<Rightarrow> pyval \<Rightarrow> error + bool" where
  "find_compare conv_list conv_dict from_search from_obj =
     (case from_obj of
        VStr obj \<Rightarrow>
          (case from_search of
             VStr search \<Rightarrow>
               (let from_obj_lower = lower obj; from_search_lower = lower search
                in if CHR ''?'' \<notin> set from_search_lower \<and> CHR ''*'' \<notin> set from_search_lower
                      \<and> CHR ''['' \<notin> set from_search_lower
                   then Inr (from_obj_lower = from_search_lower)
                   else Inr (fnmatch from_obj_lower from_search_lower))
           | _ \<Rightarrow> Inl AttributeError)
      | _ \<Rightarrow>
          (case from_search of
             VStr search \<Rightarrow>
               (case from_obj of
                  VList obj \<Rightarrow>
                    (case conv_list search of
                       Inl e \<Rightarrow> Inl e
                     | Inr (VList elems) \<Rightarrow> Inr (all_in elems obj)
                     | Inr (VStr chars) \<Rightarrow> Inr (all_in (map (\<lambda>c. VStr [c]) chars) obj)
                     | Inr (VDict d) \<Rightarrow> Inr (all_in (map (\<lambda>kv. VStr (fst kv)) d) obj)
                     | Inr _ \<Rightarrow> Inl TypeError)
                | VDict obj \<Rightarrow>
                    (case conv_dict search of
                       Inl e \<Rightarrow> Inl e
                     | Inr (VDict d) \<Rightarrow> Inr (dict_included d obj)
                     | Inr _ \<Rightarrow> Inl AttributeError)
                | VBool obj \<Rightarrow>
                    (let inp = (lower search \<in> set truthy_tokens)
                     in if inp = obj then Inr True else Inr False)
                | _ \<Rightarrow> Inl TypeError)
           | _ \<Rightarrow> Inl TypeError))"

text \<open>
  \<^verbatim>\<open>Item.find_match_single_key(data, key, value, no_errors)\<close>. The loop over the
  interfaces of a system returns \<open>Inr True\<close> when the source returns \<^verbatim>\<open>True\<close> from
  inside the loop and \<open>Inr False\<close> when the loop runs to its end. Inside the loop the
  source calls \<^verbatim>\<open>__find_compare(interface[key], value)\<close>, the field of the interface
  in the place of the search value.
\<close>

definition INTERFACE_KEYS :: "string list" where
  "INTERFACE_KEYS =
     [''cnames'', ''connected_mode'', ''if_gateway'', ''ipv6_default_gateway'', ''ipv6_mtu'',
      ''ipv6_prefix'', ''ipv6_secondaries'', ''ipv6_static_routes'', ''management'', ''mtu'',
      ''static'', ''mac_address'', ''ip_address'', ''ipv6_address'', ''netmask'',
      ''virt_bridge'', ''dhcp_tag'', ''dns_name'', ''static_routes'', ''interface_type'',
      ''interface_master'', ''bonding_opts'', ''bridge_opts'', ''interface'']"

text \<open>\<^verbatim>\<open>key in interface\<close> and \<^verbatim>\<open>interface[key]\<close> for a string key.\<close>

definition py_contains :: "pyval \<Rightarrow> string \<Rightarrow> error + bool" where
  "py_contains container key =
     (case container of
        VDict d \<Rightarrow> Inr (map_of d key \<noteq> None)
      | VList l \<Rightarrow> Inr (VStr key \<in> set l)
      | VStr s \<Rightarrow> Inr (str_contains s key)
      | _ \<Rightarrow> Inl TypeError)"

definition py_getitem :: "pyval \<Rightarrow> string \<Rightarrow> error + pyval" where
  "py_getitem container key =
     (case container of
        VDict d \<Rightarrow> (case map_of d key of None \<Rightarrow> Inl KeyError | Some v \<Rightarrow> Inr v)
      | _ \<Rightarrow> Inl TypeError)"

fun match_interfaces ::
  "(string \<Rightarrow> error + pyval) \<Rightarrow> (string \<Rightarrow> error + pyval) \<Rightarrow> string \<Rightarrow> pyval
     \<Rightarrow> (string \<times> pyval) list \<Rightarrow> error + bool" where
  "match_interfaces conv_list conv_dict key val [] = Inr False"
| "match_interfaces conv_list conv_dict key val ((name, interface) # rest) =
     (if val = VStr name then Inr True
      else if val \<noteq> VNone then
        (case py_contains interface key of
           Inl e \<Rightarrow> Inl e
         | Inr False \<Rightarrow> match_interfaces conv_list conv_dict key val rest
         | Inr True \<Rightarrow>
             (case py_getitem interface key of
                Inl e \<Rightarrow> Inl e
              | Inr field \<Rightarrow>
                  (case find_compare conv_list conv_dict field val of
                     Inl e \<Rightarrow> Inl e
                   | Inr True \<Rightarrow> Inr True
                   | Inr False \<Rightarrow> match_interfaces conv_list conv_dict key val rest)))
      else match_interfaces conv_list conv_dict key val rest)"

definition find_match_single_key ::
  "(string \<Rightarrow> error + pyval) \<Rightarrow> (string \<Rightarrow> error + pyval) \<Rightarrow> (string \<times> pyval) list
     \<Rightarrow> string \<Rightarrow> pyval \<Rightarrow> bool \<Rightarrow> error + bool" where
  "find_match_single_key conv_list conv_dict data key val no_errors =
     (case (if map_of data ''interfaces'' \<noteq> None \<and> key \<in> set INTERFACE_KEYS
            then (case map_of data ''interfaces'' of
                    Some (VDict interfaces) \<Rightarrow>
                      (case match_interfaces conv_list conv_dict key val interfaces of
                         Inl e \<Rightarrow> Inl e
                       | Inr returned \<Rightarrow> Inr (True, returned))
                  | _ \<Rightarrow> Inl AttributeError)
            else Inr (False, False)) of
        Inl e \<Rightarrow> Inl e
      | Inr (key_found_already, returned) \<Rightarrow>
          if returned then Inr True
          else if map_of data key = None \<and> \<not> key_found_already \<and> \<not> no_errors then Inr False
          else if map_of data key = None \<and> key_found_already \<and> val \<noteq> VNone then Inr False
          else if val = VNone then Inr True
          else (case map_of data key of
                  None \<Rightarrow> Inl KeyError
                | Some v \<Rightarrow> find_compare conv_list conv_dict val v))"

text \<open>
  \<^verbatim>\<open>Item.find_match(kwargs, no_errors)\<close>; \<open>data\<close> is the value of \<^verbatim>\<open>self.to_dict()\<close>.
  \<^verbatim>\<open>value.startswith\<close> exists only on a string.
\<close>

fun find_match ::
  "(string \<Rightarrow> error + pyval) \<Rightarrow> (string \<Rightarrow> error + pyval) \<Rightarrow> (string \<times> pyval) list
     \<Rightarrow> (string \<times> pyval) list \<Rightarrow> bool \<Rightarrow> error + bool" where
  "find_match conv_list conv_dict data [] no_errors = Inr True"
| "find_match conv_list conv_dict data ((key, val) # rest) no_errors =
     (case (case val of
              VNone \<Rightarrow> find_match_single_key conv_list conv_dict data key val no_errors
            | VStr s \<Rightarrow>
                (if startswith s ''~''
                 then (case find_match_single_key conv_list conv_dict data key (VStr (tl s)) no_errors of
                         Inl e \<Rightarrow> Inl e
                       | Inr r \<Rightarrow> Inr (\<not> r))
                 else find_match_single_key conv_list conv_dict data key val no_errors)
            | _ \<Rightarrow> Inl AttributeError) of
        Inl e \<Rightarrow> Inl e
      | Inr res \<Rightarrow> (if \<not> res then Inr False else find_match conv_list conv_dict data rest no_errors))"

section \<open>Items, collections and the API\<close>

text \<open>
  An item object. \<open>uid\<close> is the identifier assigned at creation and stands for the
  identity of the object. \<open>name\<close>, \<open>parent_name\<close>, \<open>depth\<close> and \<open>inmemory\<close> are the
  attributes \<^verbatim>\<open>_name\<close>, \<^verbatim>\<open>_parent\<close>, \<^verbatim>\<open>_depth\<close> and \<^verbatim>\<open>_inmemory\<close>; every other raw
  attribute is an entry of \<open>attrs\<close> under its Python name (\<^verbatim>\<open>_distro\<close>,
  \<^verbatim>\<open>_kernel_options\<close>, ...).
\<close>

record item =
  uid :: string
  family :: family
  name :: string
  parent_name :: string
  depth :: int
  inmemory :: bool
  attrs :: "(string \<times> pyval) list"

text \<open>\<^verbatim>\<open>getattr(self, attribute)\<close> for a raw attribute.\<close>

definition getattr_raw :: "item \<Rightarrow> string \<Rightarrow> error + pyval" where
  "getattr_raw x attribute =
     (if attribute = ''_uid'' then Inr (VStr (uid x))
      else if attribute = ''_name'' then Inr (VStr (name x))
      else if attribute = ''_parent'' then Inr (VStr (parent_name x))
      else if attribute = ''_depth'' then Inr (VInt (depth x))
      else if attribute = ''_inmemory'' then Inr (VBool (inmemory x))
      else (case map_of (attrs x) attribute of
              None \<Rightarrow> Inl AttributeError
            | Some v \<Rightarrow> Inr v))"

text \<open>
  The settings object: the toggle \<^verbatim>\<open>cache_enabled\<close> and the other fields by name.
  \<open>settings_getattr\<close> is \<^verbatim>\<open>hasattr\<close> and \<^verbatim>\<open>getattr\<close> in one: \<open>None\<close> when the settings
  have no such field.
\<close>

record settings =
  cache_enabled :: bool
  settings_fields :: "(string \<times> pyval) list"

definition settings_getattr :: "settings \<Rightarrow> string \<Rightarrow> pyval option" where
  "settings_getattr s field =
     (if field = ''cache_enabled'' then Some (VBool (cache_enabled s))
      else map_of (settings_fields s) field)"

text \<open>
  What \<^verbatim>\<open>api.find_items\<close> may return: nothing, one item or a list of items.
\<close>

datatype find_result = FoundNone | FoundOne item | FoundList "item list"

text \<open>
  The API object as the item code uses it: \<^verbatim>\<open>api.settings()\<close>,
  \<^verbatim>\<open>api.get_items(collection_type)\<close> (a collection is the list of its items in
  iteration order) and \<^verbatim>\<open>api.find_items(what, criteria, name, return_list)\<close>, whose
  implementation is outside the item module and is therefore left open.
\<close>

record api =
  api_settings :: settings
  get_items :: "family \<Rightarrow> item list"
  find_items :: "family \<Rightarrow> (string \<times> pyval) list \<Rightarrow> pyval \<Rightarrow> bool \<Rightarrow> find_result"

text \<open>\<^verbatim>\<open>collection.get(name)\<close>: the item of that name, or \<^verbatim>\<open>None\<close>.\<close>

definition coll_get :: "item list \<Rightarrow> string \<Rightarrow> item option" where
  "coll_get coll n = find (\<lambda>obj. name obj = n) coll"

text \<open>
  The property getters of the item classes are declared in the subclasses, so they are a
  parameter \<open>props\<close> of the resolution functions: \<open>props obj p\<close> is \<open>None\<close> when
  \<^verbatim>\<open>hasattr(obj, p)\<close> is false and \<open>Some v\<close> when \<^verbatim>\<open>getattr(obj, p)\<close> is \<open>v\<close>.
\<close>

type_synonym getters = "item \<Rightarrow> string \<Rightarrow> pyval option"


text \<open>
  \<^verbatim>\<open>LOGICAL_INHERITANCE\<close>: per family the previous levels and the next levels; menus and
  repositories have no entry.
\<close>

definition LOGICAL_INHERITANCE ::
  "family \<Rightarrow> ((family \<times> string) list \<times> (family \<times> string) list) option" where
  "LOGICAL_INHERITANCE f =
     (case f of
        Distro \<Rightarrow> Some ([], [(Profile, ''distro'')])
      | Profile \<Rightarrow> Some ([(Distro, ''distro'')], [(System, ''profile'')])
      | Image \<Rightarrow> Some ([], [(System, ''image'')])
      | System \<Rightarrow> Some ([(Image, ''image''), (Profile, ''profile'')], [])
      | _ \<Rightarrow> None)"

section \<open>The parent graph\<close>

text \<open>The getter of \<^verbatim>\<open>parent\<close>.\<close>

definition parent_of :: "api \<Rightarrow> item \<Rightarrow> item option" where
  "parent_of w x =
     (if parent_name x = '''' then None
      else coll_get (get_items w (family x)) (parent_name x))"

text \<open>
  The setter of \<^verbatim>\<open>parent\<close>. The result is the item after the call together with the
  exception raised, if any, so that a mutation made before a raise would be visible.
\<close>

definition set_parent :: "api \<Rightarrow> item \<Rightarrow> pyval \<Rightarrow> item \<times> error option" where
  "set_parent w x new_parent =
     (case new_parent of
        VStr p \<Rightarrow>
          (if p = '''' then (x\<lparr>parent_name := ''''\<rparr>, None)
           else if p = name x then (x, Some (CX ''self parentage is weird''))
           else (case coll_get (get_items w (family x)) p of
                   None \<Rightarrow>
                     (x, Some (CX (''profile '' @ [CHR 0x22] @ p @ [CHR 0x22]
                                    @ '' not found, inheritance not possible'')))
                 | Some found \<Rightarrow> (x\<lparr>parent_name := p, depth := depth found + 1\<rparr>, None)))
      | _ \<Rightarrow> (x, Some TypeError))"

text \<open>
  \<^verbatim>\<open>get_conceptual_parent\<close>. The \<^verbatim>\<open>while\<close> loop climbs the parents; it does not return
  on a cyclic parent table, and then the value is \<open>None\<close>.
\<close>

partial_function (option) topmost :: "api \<Rightarrow> item \<Rightarrow> item option" where
  "topmost w curr_obj =
     (case parent_of w curr_obj of
        None \<Rightarrow> Some curr_obj
      | Some next_obj \<Rightarrow> topmost w next_obj)"

declare topmost.simps [code]

fun prev_level_loop :: "api \<Rightarrow> item \<Rightarrow> (family \<times> string) list \<Rightarrow> error + item option" where
  "prev_level_loop w curr_obj [] = Inr None"
| "prev_level_loop w curr_obj ((prev_level_type, attr) # rest) =
     (case getattr_raw curr_obj (''_'' @ attr) of
        Inl e \<Rightarrow> Inl e
      | Inr prev_level_name \<Rightarrow>
          (if prev_level_name \<noteq> VNone \<and> prev_level_name \<noteq> VStr '''' then
             (case find_items w prev_level_type [] prev_level_name False of
                FoundOne prev_level_item \<Rightarrow> Inr (Some prev_level_item)
              | _ \<Rightarrow> prev_level_loop w curr_obj rest)
           else prev_level_loop w curr_obj rest))"

definition get_conceptual_parent :: "api \<Rightarrow> item \<Rightarrow> (error + item option) option" where
  "get_conceptual_parent w x =
     (case topmost w x of
        None \<Rightarrow> None
      | Some curr_obj \<Rightarrow>
          Some (case LOGICAL_INHERITANCE (family curr_obj) of
                  None \<Rightarrow> Inr None
                | Some levels \<Rightarrow> prev_level_loop w curr_obj (fst levels)))"

section \<open>Attribute resolution\<close>

text \<open>
  \<^verbatim>\<open>__common_resolve\<close>: the raw value of the attribute and the name of the settings
  field. A property whose name starts with \<^verbatim>\<open>proxy_url_\<close> is stored in \<^verbatim>\<open>_proxy\<close>;
  the settings field of \<^verbatim>\<open>owners\<close> is \<^verbatim>\<open>default_ownership\<close>.
\<close>

definition common_resolve :: "item \<Rightarrow> string \<Rightarrow> (error + pyval) \<times> string" where
  "common_resolve x property_name =
     (let settings_name = (if property_name = ''owners'' then ''default_ownership'' else property_name);
          stored_name = (if startswith property_name ''proxy_url_'' then ''proxy'' else property_name);
          attribute = ''_'' @ stored_name
      in (getattr_raw x attribute, settings_name))"

text \<open>
  The four sources of \<^verbatim>\<open>__resolve_get_parent_or_settings\<close> in the order of the
  \<^verbatim>\<open>if\<close>/\<^verbatim>\<open>elif\<close> chain, each \<open>None\<close> when its \<^verbatim>\<open>hasattr\<close> test is false.
  \<^verbatim>\<open>hasattr\<close> of \<^verbatim>\<open>None\<close> is false for a property name.
\<close>

definition resolve_sources ::
  "getters \<Rightarrow> api \<Rightarrow> item \<Rightarrow> item option \<Rightarrow> string \<Rightarrow> string \<Rightarrow> pyval option list" where
  "resolve_sources props w x conceptual_parent property_name settings_name =
     [case parent_of w x of None \<Rightarrow> None | Some p \<Rightarrow> props p property_name,
      case conceptual_parent of None \<Rightarrow> None | Some c \<Rightarrow> props c property_name,
      settings_getattr (api_settings w) settings_name,
      settings_getattr (api_settings w) (''default_'' @ settings_name)]"

fun first_present :: "pyval option list \<Rightarrow> pyval option" where
  "first_present [] = None"
| "first_present (None # rest) = first_present rest"
| "first_present (Some v # rest) = Some v"

text \<open>
  \<^verbatim>\<open>__resolve_get_parent_or_settings\<close>: the conceptual parent is computed before the
  chain is tried; the value is \<^verbatim>\<open>None\<close> when no source has the property.
\<close>

definition resolve_get_parent_or_settings ::
  "getters \<Rightarrow> api \<Rightarrow> item \<Rightarrow> string \<Rightarrow> string \<Rightarrow> (error + pyval) option" where
  "resolve_get_parent_or_settings props w x property_name settings_name =
     (case get_conceptual_parent w x of
        None \<Rightarrow> None
      | Some (Inl e) \<Rightarrow> Some (Inl e)
      | Some (Inr conceptual_parent) \<Rightarrow>
          Some (Inr (case first_present
                            (resolve_sources props w x conceptual_parent property_name settings_name) of
                       None \<Rightarrow> VNone
                     | Some v \<Rightarrow> v)))"

text \<open>\<^verbatim>\<open>_resolve\<close>.\<close>

definition resolve :: "getters \<Rightarrow> api \<Rightarrow> item \<Rightarrow> string \<Rightarrow> (error + pyval) option" where
  "resolve props w x property_name =
     (case common_resolve x property_name of
        (Inl e, settings_name) \<Rightarrow> Some (Inl e)
      | (Inr attribute_value, settings_name) \<Rightarrow>
          (if attribute_value = VStr VALUE_INHERITED then
             (case resolve_get_parent_or_settings props w x property_name settings_name of
                None \<Rightarrow> None
              | Some (Inl e) \<Rightarrow> Some (Inl e)
              | Some (Inr possible_return) \<Rightarrow>
                  (if possible_return \<noteq> VNone then Some (Inr possible_return)
                   else Some (Inl (InheritError (family x) (name x) property_name))))
           else Some (Inr attribute_value)))"






section \<open>Children, tree walk and descendants\<close>

text \<open>The getter of \<^verbatim>\<open>children\<close>: a scan of the collection of the item's own type.\<close>

definition children :: "api \<Rightarrow> item \<Rightarrow> item list" where
  "children w x = filter (\<lambda>obj. parent_name obj = name x) (get_items w (family x))"

text \<open>
  \<^verbatim>\<open>tree_walk\<close>. The recursion of the source has no bound; the first argument bounds its
  depth, and \<open>None\<close> says that the bound was reached.
\<close>

fun walk_loop :: "(item \<Rightarrow> item list option) \<Rightarrow> item list \<Rightarrow> item list option" where
  "walk_loop rec [] = Some []"
| "walk_loop rec (child # rest) =
     (case rec child of
        None \<Rightarrow> None
      | Some below \<Rightarrow>
          (case walk_loop rec rest of
             None \<Rightarrow> None
           | Some results \<Rightarrow> Some (child # below @ results)))"

fun tree_walk :: "nat \<Rightarrow> api \<Rightarrow> item \<Rightarrow> item list option" where
  "tree_walk 0 w x = None"
| "tree_walk (Suc n) w x = walk_loop (tree_walk n w) (children w x)"








section \<open>Cache invalidation\<close>

text \<open>
  \<^verbatim>\<open>getattr(type(self), name[1:])\<close> looks the attribute up in the class of the item. The
  classes are declared outside the item module; what matters here is the kind of the
  attribute found, so the classes are a parameter \<open>cls\<close> that gives, per family and
  attribute name, the kind of the attribute, or \<open>None\<close> when the class has no attribute of
  that name.
\<close>

datatype attr_kind = InheritableProperty | InheritableDictProperty | LazyProperty | OtherAttribute










section \<open>Notions used to state the properties\<close>

text \<open>One step up the parent chain, as a relation.\<close>

definition parent_step :: "api \<Rightarrow> (item \<times> item) set" where
  "parent_step w = {(c, p). parent_of w c = Some p}"

text \<open>
  The collection of a family is ranked by depth when each of its items is of that family
  and lies deeper than the parent that its parent name resolves to. The setter of
  \<^verbatim>\<open>parent\<close> establishes this for the item it is called on.
\<close>

definition parents_ranked :: "api \<Rightarrow> family \<Rightarrow> bool" where
  "parents_ranked w f =
     list_all (\<lambda>c. family c = f \<and> (case parent_of w c of None \<Rightarrow> True | Some p \<Rightarrow> depth p < depth c))
       (get_items w f)"

text \<open>
  The item that a reference value names in a family: the value is neither \<^verbatim>\<open>None\<close> nor
  the empty string, and the lookup by name returns one item.
\<close>

definition reference_lookup :: "api \<Rightarrow> family \<Rightarrow> pyval \<Rightarrow> item option" where
  "reference_lookup w ty v =
     (if v \<noteq> VNone \<and> v \<noteq> VStr ''''
      then (case find_items w ty [] v False of FoundOne y \<Rightarrow> Some y | _ \<Rightarrow> None)
      else None)"

text \<open>One step down from an item to one of its children, as a relation.\<close>

definition child_step :: "api \<Rightarrow> (item \<times> item) set" where
  "child_step w = {(p, c). c \<in> set (children w p)}"

text \<open>
  The parent graph of a family is well formed when the names of the collection are unique,
  its items are of that family, and every child found for an item of the collection lies
  deeper than the item.
\<close>

definition well_formed_family :: "api \<Rightarrow> family \<Rightarrow> bool" where
  "well_formed_family w f \<longleftrightarrow>
     distinct (map name (get_items w f))
     \<and> list_all (\<lambda>p. family p = f \<and> list_all (\<lambda>c. depth p < depth c) (children w p))
         (get_items w f)"





text \<open>The list that a call returned, and no item when it raised or did not return.\<close>

definition returned :: "(error + item list) option \<Rightarrow> item list" where
  "returned v = (case v of Some (Inr r) \<Rightarrow> r | _ \<Rightarrow> [])"





section \<open>A small installation for the examples\<close>

text \<open>
  A distro, two profiles (\<open>web\<close> is a sub-profile of \<open>base\<close>) and a system. Its
  \<open>find_items\<close> is a plain lookup: by name when one item is asked for, and by equality of
  the named field (or membership, for a list field) when a list is asked for.
\<close>

definition item_field :: "item \<Rightarrow> string \<Rightarrow> pyval" where
  "item_field x k =
     (if k = ''parent'' then VStr (parent_name x)
      else (case map_of (attrs x) (''_'' @ k) of None \<Rightarrow> VNone | Some v \<Rightarrow> v))"

definition field_names :: "pyval \<Rightarrow> pyval \<Rightarrow> bool" where
  "field_names field v = (field = v \<or> (case field of VList l \<Rightarrow> v \<in> set l | _ \<Rightarrow> False))"

definition lookup_find_items ::
  "(family \<Rightarrow> item list) \<Rightarrow> family \<Rightarrow> (string \<times> pyval) list \<Rightarrow> pyval \<Rightarrow> bool \<Rightarrow> find_result" where
  "lookup_find_items colls ty criteria nm return_list =
     (if return_list
      then FoundList (filter (\<lambda>x. list_all (\<lambda>kv. field_names (item_field x (fst kv)) (snd kv)) criteria)
                        (colls ty))
      else (case nm of
              VStr n \<Rightarrow> (case coll_get (colls ty) n of None \<Rightarrow> FoundNone | Some y \<Rightarrow> FoundOne y)
            | _ \<Rightarrow> FoundNone))"

definition demo_distro :: item where
  "demo_distro = \<lparr>uid = ''u-d1'', family = Distro, name = ''d1'', parent_name = '''', depth = 0,
     inmemory = True,
     attrs = [(''_kernel_options'', VDict [(''console'', VStr ''ttyS0''), (''quiet'', VNone)]),
              (''_arch'', VStr ''x86_64'')]\<rparr>"

definition demo_base :: item where
  "demo_base = \<lparr>uid = ''u-base'', family = Profile, name = ''base'', parent_name = '''', depth = 0,
     inmemory = True,
     attrs = [(''_distro'', VStr ''d1''), (''_kernel_options'', VStr ''<<inherit>>''),
              (''_server'', VStr ''<<inherit>>'')]\<rparr>"

definition demo_web :: item where
  "demo_web = \<lparr>uid = ''u-web'', family = Profile, name = ''web'', parent_name = ''base'', depth = 1,
     inmemory = True,
     attrs = [(''_distro'', VStr ''''),
              (''_kernel_options'', VDict [(''quiet'', VStr ''!''), (''debug'', VNone)]),
              (''_server'', VStr ''<<inherit>>''), (''_owners'', VStr ''<<inherit>>''),
              (''_filename'', VStr ''<<inherit>>''), (''_proxy'', VStr ''http://proxy:3128'')]\<rparr>"

definition demo_system :: item where
  "demo_system = \<lparr>uid = ''u-s1'', family = System, name = ''s1'', parent_name = '''', depth = 0,
     inmemory = True,
     attrs = [(''_image'', VStr ''''), (''_profile'', VStr ''web'')]\<rparr>"

definition demo_colls :: "family \<Rightarrow> item list" where
  "demo_colls f =
     (case f of
        Distro \<Rightarrow> [demo_distro]
      | Profile \<Rightarrow> [demo_base, demo_web]
      | System \<Rightarrow> [demo_system]
      | _ \<Rightarrow> [])"

definition demo_settings :: settings where
  "demo_settings = \<lparr>cache_enabled = True,
     settings_fields = [(''server'', VStr ''192.168.1.1''),
                        (''default_ownership'', VList [VStr ''admin'']),
                        (''kernel_options'', VDict [(''from_settings'', VStr ''1'')])]\<rparr>"

definition demo_api :: api where
  "demo_api = \<lparr>api_settings = demo_settings, get_items = demo_colls,
     find_items = lookup_find_items demo_colls\<rparr>"


text \<open>A profile whose distro reference names no distro of the installation.\<close>

definition orphan_profile :: item where
  "orphan_profile = \<lparr>uid = ''u-orphan'', family = Profile, name = ''orphan'', parent_name = '''',
     depth = 0, inmemory = True, attrs = [(''_distro'', VStr ''ghost'')]\<rparr>"




section \<open>Properties of the match engine\<close>

lemma letters_length: "length upper_letters = length lower_letters"
  by (simp add: upper_letters_def lower_letters_def)



lemma char_lower_fixed: "c \<notin> set upper_letters \<Longrightarrow> char_lower c = c"
  using map_of_zip_is_None[OF letters_length, of c]
  by (simp add: char_lower_def)


lemma char_lower_moves: "char_lower c \<noteq> c \<Longrightarrow> c \<in> set upper_letters"
  using char_lower_fixed by blast
















text \<open>
  The interfaces of a flattened system are a dictionary; other items have no such entry.
\<close>

lemma match_interfaces_None: "match_interfaces cl cd key VNone interfaces = Inr False"
  by (induction interfaces) auto

text \<open>
  C10. For a key of the flattened dictionary of an item, the criterion that maps the key
  to \<^verbatim>\<open>None\<close> is met whatever the stored value is, and no comparison is made: the
  result does not depend on the converters, and \<^verbatim>\<open>find_match\<close> on that criterion alone
  is \<^verbatim>\<open>True\<close>. Where the key is one of the interface fields and the dictionary has
  an interfaces entry, that entry is a dictionary, as it is in a flattened system.
\<close>

theorem find_match_none_pattern:
  assumes "map_of data key = Some stored"
    and "key \<notin> set INTERFACE_KEYS \<or> map_of data ''interfaces'' = None
         \<or> (\<exists>interfaces. map_of data ''interfaces'' = Some (VDict interfaces))"
  shows "find_match_single_key cl cd data key VNone no_errors = Inr True
         \<and> find_match cl cd data [(key, VNone)] no_errors = Inr True"
proof -
  have "find_match_single_key cl cd data key VNone no_errors = Inr True"
    using assms by (auto simp: find_match_single_key_def match_interfaces_None)
  then show ?thesis by simp
qed

theorem find_match_none_pattern_witness:
  "find_match (\<lambda>s. Inl TypeError) (\<lambda>s. Inl TypeError)
     [(''name'', VStr ''s1''), (''netboot_enabled'', VBool False),
      (''interfaces'', VDict [(''eth0'', VDict [(''netmask'', VStr ''255.255.255.0'')])]),
      (''netmask'', VInt 24)]
     [(''netmask'', VNone)] False = Inr True
   \<and> find_match (\<lambda>s. Inl TypeError) (\<lambda>s. Inl TypeError)
     [(''name'', VStr ''s1''), (''netboot_enabled'', VBool False),
      (''interfaces'', VDict [(''eth0'', VDict [(''netmask'', VStr ''255.255.255.0'')])]),
      (''netmask'', VInt 24)]
     [(''netboot_enabled'', VNone)] True = Inr True"
proof -
  let ?data = "[(''name'', VStr ''s1''), (''netboot_enabled'', VBool False),
      (''interfaces'', VDict [(''eth0'', VDict [(''netmask'', VStr ''255.255.255.0'')])]),
      (''netmask'', VInt 24)]"
  have i: "key \<notin> set INTERFACE_KEYS \<or> map_of ?data ''interfaces'' = None
      \<or> (\<exists>interfaces. map_of ?data ''interfaces'' = Some (VDict interfaces))" for key
    by simp
  have k1: "map_of ?data ''netmask'' = Some (VInt 24)" by simp
  have k2: "map_of ?data ''netboot_enabled'' = Some (VBool False)" by simp
  show ?thesis
    using find_match_none_pattern[OF k1 i] find_match_none_pattern[OF k2 i] by blast
qed

section \<open>Properties of the parent setter\<close>

lemmas demo_defs = demo_api_def demo_colls_def demo_settings_def demo_distro_def demo_base_def
  demo_web_def demo_system_def

lemma set_parent_clear: "set_parent w x (VStr '''') = (x\<lparr>parent_name := ''''\<rparr>, None)"
  by (simp add: set_parent_def)

lemma set_parent_found:
  assumes "p \<noteq> ''''" and "p \<noteq> name x" and "coll_get (get_items w (family x)) p = Some found"
  shows "set_parent w x (VStr p) = (x\<lparr>parent_name := p, depth := depth found + 1\<rparr>, None)"
  using assms by (simp add: set_parent_def)

lemma coll_get_name: "coll_get coll n = Some y \<Longrightarrow> name y = n \<and> y \<in> set coll"
  unfolding coll_get_def by (auto simp: find_Some_iff)

lemma coll_get_None: "coll_get coll n = None \<longleftrightarrow> n \<notin> name ` set coll"
  unfolding coll_get_def by (auto simp: find_None_iff)

text \<open>
  After a successful assignment of a parent that exists, the parent getter returns that
  parent and the depth is one more than the parent's.
\<close>

lemma set_parent_depth:
  assumes "p \<noteq> ''''" and "p \<noteq> name x" and "coll_get (get_items w (family x)) p = Some found"
  shows "parent_of w (fst (set_parent w x (VStr p))) = Some found
         \<and> depth (fst (set_parent w x (VStr p))) = depth found + 1"
  using assms by (simp add: set_parent_found parent_of_def)

text \<open>
  C6. The sub-profile \<open>web\<close> of the example has the parent \<open>base\<close> and the depth 1.
  Assigning the empty string as its parent clears the parent name and returns at once: the
  depth is still 1, although the item has no parent any more. The branch that assigns an
  existing parent does recompute the depth (\<open>set_parent_depth\<close>).
\<close>

theorem set_parent_clear_keeps_depth:
  "parent_name demo_web = ''base'' \<and> depth demo_web = 1
   \<and> set_parent demo_api demo_web (VStr '''') = (demo_web\<lparr>parent_name := ''''\<rparr>, None)
   \<and> parent_name (fst (set_parent demo_api demo_web (VStr ''''))) = ''''
   \<and> depth (fst (set_parent demo_api demo_web (VStr ''''))) = 1"
  by (simp add: set_parent_clear) (simp add: demo_web_def)

text \<open>
  C7 as stated fails for the empty string: it is the name of no item of the collection, and
  it is the own name of an item that has not been named yet, but assigning it as the parent
  succeeds and clears the parent name.
\<close>

theorem set_parent_empty_name_succeeds:
  "coll_get (get_items demo_api (family demo_web)) '''' = None
   \<and> set_parent demo_api demo_web (VStr '''') = (demo_web\<lparr>parent_name := ''''\<rparr>, None)
   \<and> parent_name (demo_web\<lparr>parent_name := ''''\<rparr>) \<noteq> parent_name demo_web
   \<and> name (demo_web\<lparr>name := ''''\<rparr>) = ''''
   \<and> set_parent demo_api (demo_web\<lparr>name := ''''\<rparr>) (VStr '''')
       = (demo_web\<lparr>name := '''', parent_name := ''''\<rparr>, None)"
  by (simp add: set_parent_clear) (simp add: demo_defs coll_get_def)

text \<open>
  C7, amended. Assigning a non-empty parent name that is the own name of the item, or that
  names no item of the collection of the item's type, raises \<^verbatim>\<open>CX\<close>, and the item is
  the same after the call as before.
\<close>

theorem set_parent_invalid:
  assumes "p \<noteq> ''''"
    and "p = name x \<or> coll_get (get_items w (family x)) p = None"
  shows "\<exists>msg. set_parent w x (VStr p) = (x, Some (CX msg))"
  using assms by (auto simp: set_parent_def)

theorem set_parent_invalid_witness:
  "(\<exists>msg. set_parent demo_api demo_web (VStr ''web'') = (demo_web, Some (CX msg)))
   \<and> (\<exists>msg. set_parent demo_api demo_web (VStr ''ghost'') = (demo_web, Some (CX msg)))"
proof -
  have n: "''web'' \<noteq> ''''" "''ghost'' \<noteq> ''''" by simp_all
  have s: "''web'' = name demo_web \<or> coll_get (get_items demo_api (family demo_web)) ''web'' = None"
    by (simp add: demo_web_def)
  have g: "''ghost'' = name demo_web \<or> coll_get (get_items demo_api (family demo_web)) ''ghost'' = None"
    by (simp add: demo_defs coll_get_def)
  show ?thesis
    using set_parent_invalid[OF n(1) s] set_parent_invalid[OF n(2) g] by blast
qed

section \<open>Properties of attribute resolution\<close>

lemma parent_of_web: "parent_of demo_api demo_web = Some demo_base"
  by (simp add: parent_of_def coll_get_def demo_defs)

lemma parent_of_base: "parent_of demo_api demo_base = None"
  by (simp add: parent_of_def coll_get_def demo_defs)

lemma topmost_web: "topmost demo_api demo_web = Some demo_base"
  by (simp add: topmost.simps[of demo_api demo_web] topmost.simps[of demo_api demo_base]
      parent_of_web parent_of_base)




text \<open>
  \<^verbatim>\<open>_resolve\<close> never returns \<^verbatim>\<open>None\<close> for an attribute whose stored value is not
  \<^verbatim>\<open>None\<close>: a property getter that returns the result of \<^verbatim>\<open>_resolve\<close> holds a value
  other than \<^verbatim>\<open>None\<close> whenever it returns.
\<close>

lemma resolve_not_None:
  assumes "common_resolve x property_name = (Inr attribute_value, settings_name)"
    and "attribute_value \<noteq> VNone"
  shows "resolve props w x property_name \<noteq> Some (Inr VNone)"
  using assms
  by (auto simp: resolve_def split: option.splits sum.splits)


section \<open>Properties of dictionary resolution\<close>









section \<open>Properties of the conceptual parent\<close>

lemma filter_length_mono:
  "(\<forall>q\<in>set xs. P q \<longrightarrow> Q q) \<Longrightarrow> length (filter P xs) \<le> length (filter Q xs)"
  by (induction xs) auto

lemma length_filter_less:
  assumes "\<And>q. q \<in> set xs \<Longrightarrow> P q \<Longrightarrow> Q q" and "q \<in> set xs" and "Q q" and "\<not> P q"
  shows "length (filter P xs) < length (filter Q xs)"
  using assms
proof (induction xs)
  case Nil
  then show ?case by simp
next
  case (Cons a xs)
  have le: "length (filter P xs) \<le> length (filter Q xs)"
    using Cons.prems(1) by (intro filter_length_mono) auto
  show ?case
  proof (cases "q = a")
    case True
    then show ?thesis using Cons.prems le by simp
  next
    case False
    then have "length (filter P xs) < length (filter Q xs)"
      using Cons by auto
    then show ?thesis using Cons.prems(1)[of a] by auto
  qed
qed

lemma parents_rankedD:
  assumes "parents_ranked w f" and "c \<in> set (get_items w f)"
  shows "family c = f" and "parent_of w c = Some p \<Longrightarrow> depth p < depth c \<and> p \<in> set (get_items w f)"
proof -
  from assms have c: "family c = f \<and> (case parent_of w c of None \<Rightarrow> True | Some p \<Rightarrow> depth p < depth c)"
    by (auto simp: parents_ranked_def list_all_iff)
  then show "family c = f" by simp
  assume p: "parent_of w c = Some p"
  then have "p \<in> set (get_items w (family c))"
    by (auto simp: parent_of_def split: if_splits dest: coll_get_name)
  with c p show "depth p < depth c \<and> p \<in> set (get_items w f)" by simp
qed

lemma topmost_terminates_in_collection:
  assumes "parents_ranked w f" and "c \<in> set (get_items w f)"
  shows "\<exists>root. topmost w c = Some root"
  using assms(2)
proof (induction "length (filter (\<lambda>q. depth q < depth c) (get_items w f))" arbitrary: c rule: less_induct)
  case less
  show ?case
  proof (cases "parent_of w c")
    case None
    then show ?thesis by (simp add: topmost.simps[of w c])
  next
    case (Some p)
    from parents_rankedD(2)[OF assms(1) less.prems Some]
    have d: "depth p < depth c" and m: "p \<in> set (get_items w f)" by simp_all
    have "length (filter (\<lambda>q. depth q < depth p) (get_items w f))
          < length (filter (\<lambda>q. depth q < depth c) (get_items w f))"
      by (rule length_filter_less[where q = p]) (use d m in auto)
    from less.hyps[OF this m] obtain root where "topmost w p = Some root" ..
    then show ?thesis using Some by (simp add: topmost.simps[of w c])
  qed
qed

lemma topmost_terminates:
  assumes "parents_ranked w (family x)"
  shows "\<exists>root. topmost w x = Some root"
proof (cases "parent_of w x")
  case None
  then show ?thesis by (simp add: topmost.simps[of w x])
next
  case (Some p)
  then have "p \<in> set (get_items w (family x))"
    by (auto simp: parent_of_def split: if_splits dest: coll_get_name)
  from topmost_terminates_in_collection[OF assms this] Some
  show ?thesis by (simp add: topmost.simps[of w x])
qed

lemma topmost_chain:
  "topmost w x = Some root \<Longrightarrow> (x, root) \<in> (parent_step w)\<^sup>* \<and> parent_of w root = None"
proof (induction rule: topmost.raw_induct[rotated 1, consumes 1])
  case (1 climb w x root)
  show ?case
  proof (cases "parent_of w x")
    case None
    with 1(2) show ?thesis by simp
  next
    case (Some p)
    with 1(2) have "climb w p = Some root" by simp
    from 1(1)[OF this] have "(p, root) \<in> (parent_step w)\<^sup>*" and n: "parent_of w root = None"
      by simp_all
    moreover have "(x, p) \<in> parent_step w"
      using Some by (simp add: parent_step_def)
    ultimately show ?thesis by (meson converse_rtrancl_into_rtrancl)
  qed
qed

lemma prev_level_loop_one:
  assumes "getattr_raw root (''_'' @ attr) = Inr v"
  shows "prev_level_loop w root [(ty, attr)] = Inr (reference_lookup w ty v)"
  using assms by (auto simp: reference_lookup_def split: find_result.splits)

lemma prev_level_loop_two:
  assumes "getattr_raw root (''_'' @ attr) = Inr v" and "getattr_raw root (''_'' @ attr') = Inr v'"
  shows "prev_level_loop w root [(ty, attr), (ty', attr')] =
           Inr (case reference_lookup w ty v of Some y \<Rightarrow> Some y | None \<Rightarrow> reference_lookup w ty' v')"
  using assms by (auto simp: reference_lookup_def split: find_result.splits)

text \<open>
  C8 as stated fails for a reference that names no item: the distro reference of the
  profile \<open>orphan\<close> is non-empty and is not the inherit marker, and the profile has no
  conceptual parent.
\<close>

theorem conceptual_parent_dangling_reference:
  "getattr_raw orphan_profile ''_distro'' = Inr (VStr ''ghost'')
   \<and> ''ghost'' \<noteq> '''' \<and> ''ghost'' \<noteq> VALUE_INHERITED
   \<and> topmost demo_api orphan_profile = Some orphan_profile
   \<and> get_conceptual_parent demo_api orphan_profile = Some (Inr None)"
proof -
  have p: "parent_of demo_api orphan_profile = None"
    by (simp add: parent_of_def orphan_profile_def)
  have t: "topmost demo_api orphan_profile = Some orphan_profile"
    by (simp add: topmost.simps[of demo_api orphan_profile] p)
  have a: "getattr_raw orphan_profile ''_distro'' = Inr (VStr ''ghost'')"
    by (simp add: getattr_raw_def orphan_profile_def)
  have f: "family orphan_profile = Profile"
    by (simp add: orphan_profile_def)
  have l: "find_items demo_api Distro [] (VStr ''ghost'') False = FoundNone"
    by (simp add: demo_defs lookup_find_items_def coll_get_def)
  have "get_conceptual_parent demo_api orphan_profile = Some (Inr None)"
    using a l by (simp add: get_conceptual_parent_def t f LOGICAL_INHERITANCE_def)
  then show ?thesis
    using a t by (simp add: VALUE_INHERITED_def)
qed

text \<open>
  C8, amended. When the collection of the item's family is ranked by depth the climb up
  the parents ends. It ends at an item \<open>root\<close> that is reached from the item by parent steps
  and has no parent. A root of a family without previous level (repository, menu, distro,
  image) gives no conceptual parent. For a profile the conceptual parent is the distro that
  the lookup finds for the value of \<^verbatim>\<open>_distro\<close>, when that value is neither \<^verbatim>\<open>None\<close> nor
  empty and the lookup returns one item, and nothing otherwise; for a system the image
  reference is tried first and the profile reference second. The value is not compared with
  the inherit marker.
\<close>

theorem conceptual_parent_lookup:
  "(parents_ranked w (family x) \<longrightarrow> (\<exists>root. topmost w x = Some root))
   \<and> (topmost w x = Some root \<longrightarrow>
        (x, root) \<in> (parent_step w)\<^sup>* \<and> parent_of w root = None
        \<and> (family root \<in> {Repo, Menu, Distro, Image} \<longrightarrow>
             get_conceptual_parent w x = Some (Inr None))
        \<and> (family root = Profile \<longrightarrow> getattr_raw root ''_distro'' = Inr v \<longrightarrow>
             get_conceptual_parent w x = Some (Inr (reference_lookup w Distro v)))
        \<and> (family root = System \<longrightarrow> getattr_raw root ''_image'' = Inr i \<longrightarrow>
             getattr_raw root ''_profile'' = Inr v \<longrightarrow>
             get_conceptual_parent w x =
               Some (Inr (case reference_lookup w Image i of
                            Some y \<Rightarrow> Some y
                          | None \<Rightarrow> reference_lookup w Profile v))))"
proof -
  have a: "parents_ranked w (family x) \<longrightarrow> (\<exists>root. topmost w x = Some root)"
    using topmost_terminates by blast
  have b: "get_conceptual_parent w x = Some (Inr None)"
    if "topmost w x = Some root" "family root \<in> {Repo, Menu, Distro, Image}"
    using that by (auto simp: get_conceptual_parent_def LOGICAL_INHERITANCE_def)
  have c: "get_conceptual_parent w x = Some (Inr (reference_lookup w Distro v))"
    if "topmost w x = Some root" "family root = Profile" "getattr_raw root ''_distro'' = Inr v"
    using that prev_level_loop_one[of root "''distro''" v w Distro]
    by (simp add: get_conceptual_parent_def LOGICAL_INHERITANCE_def)
  have d: "get_conceptual_parent w x =
             Some (Inr (case reference_lookup w Image i of
                          Some y \<Rightarrow> Some y
                        | None \<Rightarrow> reference_lookup w Profile v))"
    if "topmost w x = Some root" "family root = System" "getattr_raw root ''_image'' = Inr i"
      "getattr_raw root ''_profile'' = Inr v"
    using that prev_level_loop_two[of root "''image''" i "''profile''" v w Image Profile]
    by (simp add: get_conceptual_parent_def LOGICAL_INHERITANCE_def)
  show ?thesis
    using a b c d topmost_chain[of w x root] by blast
qed

theorem conceptual_parent_lookup_witness:
  "(\<exists>root. topmost demo_api demo_web = Some root)
   \<and> (demo_web, demo_base) \<in> (parent_step demo_api)\<^sup>*
   \<and> get_conceptual_parent demo_api demo_web = Some (Inr (Some demo_distro))
   \<and> get_conceptual_parent demo_api demo_system = Some (Inr (Some demo_web))"
proof -
  have r: "parents_ranked demo_api (family demo_web)"
    by (simp add: parents_ranked_def parent_of_def coll_get_def demo_defs)
  have f: "family demo_base = Profile" "family demo_system = System"
    by (simp_all add: demo_base_def demo_system_def)
  have a: "getattr_raw demo_base ''_distro'' = Inr (VStr ''d1'')"
    "getattr_raw demo_system ''_image'' = Inr (VStr '''')"
    "getattr_raw demo_system ''_profile'' = Inr (VStr ''web'')"
    by (simp_all add: getattr_raw_def demo_base_def demo_system_def)
  have l: "reference_lookup demo_api Distro (VStr ''d1'') = Some demo_distro"
    "reference_lookup demo_api Image (VStr '''') = None"
    "reference_lookup demo_api Profile (VStr ''web'') = Some demo_web"
    by (simp_all add: reference_lookup_def lookup_find_items_def coll_get_def demo_defs)
  have p: "parent_of demo_api demo_system = None"
    by (simp add: parent_of_def demo_system_def)
  have t: "topmost demo_api demo_system = Some demo_system"
    by (simp add: topmost.simps[of demo_api demo_system] p)
  show ?thesis
    using conceptual_parent_lookup[of demo_api demo_web demo_base "VStr ''d1''"]
      conceptual_parent_lookup[of demo_api demo_system demo_system "VStr ''web''" "VStr ''''"]
      r f a l t topmost_web
    by simp
qed

section \<open>Properties of the tree walk\<close>

lemma walk_loop_eq:
  "walk_loop f cs =
     (if \<forall>c\<in>set cs. f c \<noteq> None then Some (concat (map (\<lambda>c. c # the (f c)) cs)) else None)"
  by (induction cs) (auto split: option.splits)

lemma tree_walk_Suc:
  "tree_walk (Suc n) w x =
     (if \<forall>c\<in>set (children w x). tree_walk n w c \<noteq> None
      then Some (concat (map (\<lambda>c. c # the (tree_walk n w c)) (children w x))) else None)"
  by (simp add: walk_loop_eq)

declare tree_walk.simps(2) [simp del]

lemma tree_walk_step: "tree_walk n w x = Some l \<Longrightarrow> tree_walk (Suc n) w x = Some l"
proof (induction n arbitrary: x l)
  case 0
  then show ?case by simp
next
  case (Suc n)
  from Suc.prems have all: "\<forall>c\<in>set (children w x). tree_walk n w c \<noteq> None"
    and l: "l = concat (map (\<lambda>c. c # the (tree_walk n w c)) (children w x))"
    by (auto simp: tree_walk_Suc split: if_splits)
  have same: "tree_walk (Suc n) w c = tree_walk n w c" if "c \<in> set (children w x)" for c
    using all that Suc.IH[of c] by fastforce
  have "concat (map (\<lambda>c. c # the (tree_walk (Suc n) w c)) (children w x)) = l"
    unfolding l by (rule arg_cong[where f = concat], rule map_cong) (simp_all add: same)
  moreover have "\<forall>c\<in>set (children w x). tree_walk (Suc n) w c \<noteq> None"
    using all same by simp
  ultimately show ?case
    by (subst tree_walk_Suc) simp
qed

lemma tree_walk_mono: "tree_walk n w x = Some l \<Longrightarrow> n \<le> m \<Longrightarrow> tree_walk m w x = Some l"
  by (induction m) (auto simp: le_Suc_eq dest: tree_walk_step)

lemma tree_walk_unique:
  assumes "tree_walk n w x = Some l" and "tree_walk m w x = Some l'"
  shows "l = l'"
  using tree_walk_mono[OF assms(1), of "max n m"] tree_walk_mono[OF assms(2), of "max n m"]
  by simp

lemma children_in_collection:
  "c \<in> set (children w p) \<Longrightarrow> c \<in> set (get_items w (family p)) \<and> parent_name c = name p"
  by (simp add: children_def)

lemma child_step_iff: "(p, c) \<in> child_step w \<longleftrightarrow> c \<in> set (children w p)"
  by (simp add: child_step_def)

lemma tree_walk_subset:
  "tree_walk n w x = Some l \<Longrightarrow> y \<in> set l \<Longrightarrow> (x, y) \<in> (child_step w)\<^sup>+"
proof (induction n arbitrary: x l)
  case 0
  then show ?case by simp
next
  case (Suc n)
  from Suc.prems(1) have all: "\<forall>c\<in>set (children w x). tree_walk n w c \<noteq> None"
    and l: "l = concat (map (\<lambda>c. c # the (tree_walk n w c)) (children w x))"
    by (auto simp: tree_walk_Suc split: if_splits)
  from Suc.prems(2) l obtain c where c: "c \<in> set (children w x)"
    and y: "y = c \<or> y \<in> set (the (tree_walk n w c))"
    by auto
  have xc: "(x, c) \<in> child_step w"
    using c by (simp add: child_step_iff)
  from all c obtain lc where lc: "tree_walk n w c = Some lc" by auto
  show ?case
  proof (cases "y = c")
    case True
    then show ?thesis using xc by auto
  next
    case False
    with y lc have "y \<in> set lc" by simp
    from Suc.IH[OF lc this] xc show ?thesis by (meson trancl_into_trancl2)
  qed
qed

lemma tree_walk_children:
  "tree_walk n w x = Some l \<Longrightarrow> c \<in> set (children w x) \<Longrightarrow> c \<in> set l"
  by (cases n) (auto simp: tree_walk_Suc split: if_splits)

lemma tree_walk_closed:
  "tree_walk n w x = Some l \<Longrightarrow> y \<in> set l \<Longrightarrow> z \<in> set (children w y) \<Longrightarrow> z \<in> set l"
proof (induction n arbitrary: x l)
  case 0
  then show ?case by simp
next
  case (Suc n)
  from Suc.prems(1) have all: "\<forall>c\<in>set (children w x). tree_walk n w c \<noteq> None"
    and l: "l = concat (map (\<lambda>c. c # the (tree_walk n w c)) (children w x))"
    by (auto simp: tree_walk_Suc split: if_splits)
  from Suc.prems(2) l obtain c where c: "c \<in> set (children w x)"
    and y: "y = c \<or> y \<in> set (the (tree_walk n w c))"
    by auto
  from all c obtain lc where lc: "tree_walk n w c = Some lc" by auto
  have "z \<in> set lc"
    using y tree_walk_children[OF lc] Suc.IH[OF lc _ Suc.prems(3)] Suc.prems(3) lc by auto
  then have "\<exists>c'\<in>set (children w x). z = c' \<or> z \<in> set (the (tree_walk n w c'))"
    using c lc by (intro bexI[of _ c]) simp_all
  then show ?case
    unfolding l by simp
qed

lemma tree_walk_set:
  assumes "tree_walk n w x = Some l"
  shows "set l = {y. (x, y) \<in> (child_step w)\<^sup>+}"
proof -
  have "y \<in> set l" if "(x, y) \<in> (child_step w)\<^sup>+" for y
    using that
  proof (induction rule: trancl_induct)
    case (base y)
    then show ?case using tree_walk_children[OF assms] by (simp add: child_step_iff)
  next
    case (step y z)
    then show ?case using tree_walk_closed[OF assms] by (simp add: child_step_iff)
  qed
  then show ?thesis
    using tree_walk_subset[OF assms] by auto
qed

lemma well_formedD:
  assumes "well_formed_family w f" and "p \<in> set (get_items w f)"
  shows "family p = f"
    and "c \<in> set (children w p) \<Longrightarrow> depth p < depth c \<and> c \<in> set (get_items w f)"
    and "q \<in> set (get_items w f) \<Longrightarrow> name q = name p \<Longrightarrow> q = p"
proof -
  from assms have p: "family p = f \<and> list_all (\<lambda>c. depth p < depth c) (children w p)"
    and d: "distinct (map name (get_items w f))"
    by (auto simp: well_formed_family_def list_all_iff)
  from p show f: "family p = f" by simp
  show "depth p < depth c \<and> c \<in> set (get_items w f)" if "c \<in> set (children w p)"
    using p that children_in_collection[OF that] by (auto simp: list_all_iff)
  show "q = p" if "q \<in> set (get_items w f)" "name q = name p"
    using d that assms(2) by (meson distinct_map inj_onD)
qed

lemma child_star_in_collection:
  assumes "well_formed_family w f" and "a \<in> set (get_items w f)" and "(a, y) \<in> (child_step w)\<^sup>*"
  shows "y \<in> set (get_items w f)"
  using assms(3,2)
  by (induction rule: rtrancl_induct) (auto simp: child_step_iff dest: well_formedD(2)[OF assms(1)])

lemma child_plus_deeper:
  assumes "well_formed_family w f" and "a \<in> set (get_items w f)" and "(a, y) \<in> (child_step w)\<^sup>+"
  shows "depth a < depth y"
  using assms(3)
proof (induction rule: trancl_induct)
  case (base y)
  then show ?case using well_formedD(2)[OF assms(1,2)] by (simp add: child_step_iff)
next
  case (step y z)
  have "y \<in> set (get_items w f)"
    using child_star_in_collection[OF assms(1,2)] step.hyps(1) by (simp add: trancl_into_rtrancl)
  from well_formedD(2)[OF assms(1) this] step show ?case
    by (fastforce simp: child_step_iff)
qed

lemma child_chain:
  assumes wf: "well_formed_family w f"
    and a: "a \<in> set (get_items w f)" and b: "b \<in> set (get_items w f)"
    and ay: "(a, y) \<in> (child_step w)\<^sup>*" and "(b, y) \<in> (child_step w)\<^sup>*"
  shows "(a, b) \<in> (child_step w)\<^sup>* \<or> (b, a) \<in> (child_step w)\<^sup>*"
  using ay assms(5)
proof (induction rule: rtrancl_induct)
  case base
  then show ?case by simp
next
  case (step y' y)
  show ?case
  proof (cases "b = y")
    case True
    then show ?thesis using step.hyps by (meson rtrancl.rtrancl_into_rtrancl)
  next
    case False
    with step.prems obtain y'' where by'': "(b, y'') \<in> (child_step w)\<^sup>*"
      and y''y: "(y'', y) \<in> child_step w"
      by (meson rtranclE)
    have m: "y' \<in> set (get_items w f)" "y'' \<in> set (get_items w f)"
      using child_star_in_collection[OF wf a step.hyps(1)] child_star_in_collection[OF wf b by'']
      by simp_all
    have "name y'' = name y'"
      using step.hyps(2) y''y by (auto simp: child_step_iff dest!: children_in_collection)
    from well_formedD(3)[OF wf m(1) m(2) this] have "y'' = y'" .
    with step.IH by'' show ?thesis by simp
  qed
qed

lemma siblings_disjoint:
  assumes wf: "well_formed_family w (family x)"
    and c1: "c1 \<in> set (children w x)" and c2: "c2 \<in> set (children w x)" and ne: "c1 \<noteq> c2"
    and y1: "(c1, y) \<in> (child_step w)\<^sup>*" and y2: "(c2, y) \<in> (child_step w)\<^sup>*"
  shows False
proof -
  let ?f = "family x"
  have m: "c1 \<in> set (get_items w ?f)" "c2 \<in> set (get_items w ?f)"
    and pn: "parent_name c1 = name x" "parent_name c2 = name x"
    using children_in_collection[OF c1] children_in_collection[OF c2] by simp_all
  have no: False
    if s: "(a, b) \<in> (child_step w)\<^sup>*" and a: "a \<in> set (get_items w ?f)" and ab: "a \<noteq> b"
      and pa: "parent_name a = name x" and pb: "parent_name b = name x" for a b
  proof -
    from s ab have "(a, b) \<in> (child_step w)\<^sup>+" by (simp add: rtrancl_eq_or_trancl)
    then obtain q where aq: "(a, q) \<in> (child_step w)\<^sup>*" and qb: "(q, b) \<in> child_step w"
      by (meson tranclD2)
    have q: "q \<in> set (get_items w ?f)"
      by (rule child_star_in_collection[OF wf a aq])
    have "name q = name x"
      using qb pb by (auto simp: child_step_iff dest!: children_in_collection)
    then have "a \<in> set (children w q)"
      using a pa well_formedD(1)[OF wf q] by (simp add: children_def)
    then have "(q, a) \<in> child_step w" by (simp add: child_step_iff)
    with aq have "(q, q) \<in> (child_step w)\<^sup>+" by (meson rtrancl_into_trancl2)
    from child_plus_deeper[OF wf q this] show False by simp
  qed
  from child_chain[OF wf m y1 y2] show False
    using no[of c1 c2] no[of c2 c1] m pn ne by auto
qed

lemma tree_walk_distinct:
  assumes "well_formed_family w (family x)" and "tree_walk n w x = Some l"
  shows "distinct l"
  using assms
proof (induction n arbitrary: x l)
  case 0
  then show ?case by simp
next
  case (Suc n)
  let ?cs = "children w x"
  let ?sub = "\<lambda>c. c # the (tree_walk n w c)"
  from Suc.prems(2) have all: "\<forall>c\<in>set ?cs. tree_walk n w c \<noteq> None"
    and l: "l = concat (map ?sub ?cs)"
    by (auto simp: tree_walk_Suc split: if_splits)
  have wf: "well_formed_family w (family x)" by fact
  have mem: "c \<in> set (get_items w (family x))" and fam: "family c = family x"
    if "c \<in> set ?cs" for c
    using children_in_collection[OF that] well_formedD(1)[OF wf] by auto
  have "distinct (get_items w (family x))"
    using wf by (auto simp: well_formed_family_def distinct_map)
  then have dcs: "distinct ?cs" by (simp add: children_def)
  have reach: "(c, y) \<in> (child_step w)\<^sup>*" if "c \<in> set ?cs" "y \<in> set (?sub c)" for c y
  proof -
    from all that(1) obtain lc where lc: "tree_walk n w c = Some lc" by auto
    show ?thesis
      using that(2) lc tree_walk_subset[OF lc, of y] by (auto simp: trancl_into_rtrancl)
  qed
  have d1: "distinct (map ?sub ?cs)"
    using dcs by (simp add: distinct_map inj_on_def)
  have d2: "distinct ys" if "ys \<in> set (map ?sub ?cs)" for ys
  proof -
    from that obtain c where c: "c \<in> set ?cs" and ys: "ys = ?sub c" by auto
    from all c obtain lc where lc: "tree_walk n w c = Some lc" by auto
    have "distinct lc"
      using Suc.IH[OF _ lc] wf fam[OF c] by simp
    moreover have "c \<notin> set lc"
      using tree_walk_subset[OF lc, of c] child_plus_deeper[OF wf mem[OF c], of c] by auto
    ultimately show ?thesis using ys lc by simp
  qed
  have d3: "set ys \<inter> set zs = {}"
    if "ys \<in> set (map ?sub ?cs)" "zs \<in> set (map ?sub ?cs)" "ys \<noteq> zs" for ys zs
  proof -
    from that obtain c1 c2 where c: "c1 \<in> set ?cs" "c2 \<in> set ?cs"
      and ys: "ys = ?sub c1" and zs: "zs = ?sub c2" and ne: "c1 \<noteq> c2"
      by auto
    show ?thesis
    proof (rule ccontr)
      assume "set ys \<inter> set zs \<noteq> {}"
      then obtain y where "y \<in> set ys" "y \<in> set zs" by auto
      then have "(c1, y) \<in> (child_step w)\<^sup>*" "(c2, y) \<in> (child_step w)\<^sup>*"
        using reach c ys zs by simp_all
      from siblings_disjoint[OF wf c ne this] show False .
    qed
  qed
  show ?case
    unfolding l by (rule distinct_concat) (use d1 d2 d3 in auto)
qed

lemma tree_walk_not_self:
  assumes "well_formed_family w (family x)" and "tree_walk n w x = Some l"
  shows "x \<notin> set l"
proof
  assume "x \<in> set l"
  then have c: "(x, x) \<in> (child_step w)\<^sup>+"
    by (rule tree_walk_subset[OF assms(2)])
  then obtain q where "(q, x) \<in> child_step w" by (meson tranclD2)
  then have "x \<in> set (get_items w (family q))" "parent_name x = name q"
    by (auto simp: child_step_iff dest: children_in_collection)
  moreover from c obtain c' where xc: "(x, c') \<in> child_step w" and cx: "(c', x) \<in> (child_step w)\<^sup>*"
    by (meson tranclD)
  have c'm: "c' \<in> set (get_items w (family x))"
    using xc by (auto simp: child_step_iff dest: children_in_collection)
  have "x \<in> set (get_items w (family x))"
    by (rule child_star_in_collection[OF assms(1) c'm cx])
  from child_plus_deeper[OF assms(1) this c] show False by simp
qed

lemma common_fuel:
  "\<forall>c\<in>set cs. \<exists>n l. tree_walk n w c = Some l \<Longrightarrow> \<exists>n. \<forall>c\<in>set cs. tree_walk n w c \<noteq> None"
proof (induction cs)
  case Nil
  then show ?case by simp
next
  case (Cons c cs)
  then obtain n where n: "\<forall>c\<in>set cs. tree_walk n w c \<noteq> None" by auto
  from Cons.prems obtain k l where k: "tree_walk k w c = Some l" by auto
  have "tree_walk (max n k) w c' \<noteq> None" if "c' \<in> set (c # cs)" for c'
  proof (cases "c' = c")
    case True
    then show ?thesis using tree_walk_mono[OF k, of "max n k"] by simp
  next
    case False
    with that n obtain l' where "tree_walk n w c' = Some l'" by auto
    from tree_walk_mono[OF this, of "max n k"] show ?thesis by simp
  qed
  then show ?case by blast
qed

lemma tree_walk_terminates_in_collection:
  assumes "well_formed_family w f" and "c \<in> set (get_items w f)"
  shows "\<exists>n l. tree_walk n w c = Some l"
  using assms(2)
proof (induction "length (filter (\<lambda>q. depth c < depth q) (get_items w f))" arbitrary: c rule: less_induct)
  case less
  have "\<exists>n l. tree_walk n w c' = Some l" if c': "c' \<in> set (children w c)" for c'
  proof -
    from well_formedD(2)[OF assms(1) less.prems c']
    have d: "depth c < depth c'" and m: "c' \<in> set (get_items w f)" by simp_all
    have "length (filter (\<lambda>q. depth c' < depth q) (get_items w f))
          < length (filter (\<lambda>q. depth c < depth q) (get_items w f))"
      by (rule length_filter_less[where q = c']) (use d m in auto)
    from less.hyps[OF this m] show ?thesis .
  qed
  then obtain n where "\<forall>c'\<in>set (children w c). tree_walk n w c' \<noteq> None"
    using common_fuel[of "children w c" w] by blast
  then show ?case
    by (intro exI[of _ "Suc n"]) (simp add: tree_walk_Suc)
qed

lemma tree_walk_terminates:
  assumes "well_formed_family w (family x)"
  shows "\<exists>n l. tree_walk n w x = Some l"
proof -
  have "\<exists>n l. tree_walk n w c = Some l" if "c \<in> set (children w x)" for c
    using tree_walk_terminates_in_collection[OF assms] children_in_collection[OF that] by simp
  then obtain n where "\<forall>c\<in>set (children w x). tree_walk n w c \<noteq> None"
    using common_fuel[of "children w x" w] by blast
  then show ?thesis
    by (intro exI[of _ "Suc n"]) (simp add: tree_walk_Suc)
qed

lemma well_formed_demo: "well_formed_family demo_api Profile"
  by (simp add: well_formed_family_def children_def demo_defs)

lemma children_demo:
  "children demo_api demo_base = [demo_web]" "children demo_api demo_web = []"
  by (simp_all add: children_def demo_defs)

lemma tree_walk_demo_web: "tree_walk 1 demo_api demo_web = Some []"
proof -
  have "tree_walk (Suc 0) demo_api demo_web = Some []"
    by (simp add: tree_walk.simps children_demo)
  then show ?thesis by simp
qed

lemma tree_walk_demo_base: "tree_walk 2 demo_api demo_base = Some [demo_web]"
proof -
  have "tree_walk (Suc 0) demo_api demo_web = Some []"
    by (simp add: tree_walk.simps children_demo)
  then have "tree_walk (Suc (Suc 0)) demo_api demo_base = Some [demo_web]"
    by (simp add: tree_walk.simps(2)[of "Suc 0"] children_demo)
  then show ?thesis by (simp add: numeral_2_eq_2)
qed

text \<open>
  C5 as stated fails for children of another type: the system \<open>s1\<close> has the profile
  \<open>web\<close> as its conceptual parent and \<open>web\<close> is a child of \<open>base\<close>, but the system is
  neither in the tree walk of \<open>web\<close> nor in the tree walk of \<open>base\<close>.
\<close>

theorem tree_walk_misses_cross_type:
  "get_conceptual_parent demo_api demo_system = Some (Inr (Some demo_web))
   \<and> parent_of demo_api demo_web = Some demo_base
   \<and> tree_walk 1 demo_api demo_web = Some []
   \<and> tree_walk 2 demo_api demo_base = Some [demo_web]
   \<and> demo_system \<notin> set [demo_web]"
proof -
  have p: "parent_of demo_api demo_system = None"
    by (simp add: parent_of_def demo_system_def)
  have t: "topmost demo_api demo_system = Some demo_system"
    by (simp add: topmost.simps[of demo_api demo_system] p)
  have "get_conceptual_parent demo_api demo_system = Some (Inr (Some demo_web))"
    by (simp add: get_conceptual_parent_def t LOGICAL_INHERITANCE_def)
       (simp add: demo_defs getattr_raw_def lookup_find_items_def coll_get_def)
  moreover have "demo_system \<noteq> demo_web"
    by (simp add: demo_system_def demo_web_def)
  ultimately show ?thesis
    using parent_of_web tree_walk_demo_web tree_walk_demo_base by simp
qed

text \<open>
  C5, amended. For an item whose family has a well-formed parent graph the tree walk
  returns, with every large enough bound on the depth of the recursion the same list. The
  list is the pre-order traversal of the children: each child in the order of the
  collection, followed by the tree walk of that child. It holds exactly the items reached
  from the item by one or more child steps, which are items of the item's own family
  collection, each of them once, and not the item itself.
\<close>

theorem tree_walk_preorder:
  assumes "well_formed_family w (family x)"
  shows "\<exists>n l. (\<forall>m\<ge>n. tree_walk m w x = Some l)
           \<and> (\<forall>m l'. tree_walk m w x = Some l' \<longrightarrow> l' = l)
           \<and> (\<exists>sub. (\<forall>c\<in>set (children w x). \<exists>k. tree_walk k w c = Some (sub c))
                    \<and> l = concat (map (\<lambda>c. c # sub c) (children w x)))
           \<and> set l = {y. (x, y) \<in> (child_step w)\<^sup>+}
           \<and> set l \<subseteq> set (get_items w (family x))
           \<and> distinct l
           \<and> x \<notin> set l"
proof -
  from tree_walk_terminates[OF assms] obtain n l where nl: "tree_walk n w x = Some l" by blast
  then obtain k where n: "n = Suc k" by (cases n) auto
  have a: "\<forall>m\<ge>n. tree_walk m w x = Some l"
    using tree_walk_mono[OF nl] by blast
  have b: "\<forall>m l'. tree_walk m w x = Some l' \<longrightarrow> l' = l"
    using tree_walk_unique[OF nl] by blast
  have all: "\<forall>c\<in>set (children w x). tree_walk k w c \<noteq> None"
    and l: "l = concat (map (\<lambda>c. c # the (tree_walk k w c)) (children w x))"
    using nl unfolding n by (auto simp: tree_walk_Suc split: if_splits)
  have c: "\<exists>sub. (\<forall>c\<in>set (children w x). \<exists>k. tree_walk k w c = Some (sub c))
                    \<and> l = concat (map (\<lambda>c. c # sub c) (children w x))"
    using all l by (intro exI[of _ "\<lambda>c. the (tree_walk k w c)"]) fastforce
  have d: "set l = {y. (x, y) \<in> (child_step w)\<^sup>+}"
    by (rule tree_walk_set[OF nl])
  have e: "set l \<subseteq> set (get_items w (family x))"
  proof
    fix y assume "y \<in> set l"
    with d obtain c where xc: "(x, c) \<in> child_step w" and cy: "(c, y) \<in> (child_step w)\<^sup>*"
      by (auto dest: tranclD)
    have "c \<in> set (get_items w (family x))"
      using xc by (auto simp: child_step_iff dest: children_in_collection)
    from child_star_in_collection[OF assms this cy] show "y \<in> set (get_items w (family x))" .
  qed
  show ?thesis
    using a b c d e tree_walk_distinct[OF assms nl] tree_walk_not_self[OF assms nl] by blast
qed

theorem tree_walk_preorder_witness:
  "well_formed_family demo_api (family demo_base)
   \<and> (\<exists>n. \<forall>m\<ge>n. tree_walk m demo_api demo_base = Some [demo_web])"
proof -
  have wf: "well_formed_family demo_api (family demo_base)"
    using well_formed_demo by (simp add: demo_base_def)
  from tree_walk_preorder[OF wf] obtain n l
    where a: "\<forall>m\<ge>n. tree_walk m demo_api demo_base = Some l"
      and b: "\<forall>m l'. tree_walk m demo_api demo_base = Some l' \<longrightarrow> l' = l"
    by blast
  from b tree_walk_demo_base have "l = [demo_web]" by blast
  with a wf show ?thesis by blast
qed

section \<open>Properties of the descendants\<close>





lemma returned_Inr [simp]: "returned (Some (Inr r)) = r"
  by (simp add: returned_def)















































section \<open>Properties of the cache invalidation\<close>







end
